theory Spec2Isabelle
  imports Complex_Main "HOL-Library.AList"
begin

section \<open>Values and dictionaries\<close>

text \<open>
  The engine of \<^verbatim>\<open>src/workflow.py\<close> builds and returns Python dictionaries. A
  dictionary is an association list in insertion order (the order Python's \<^verbatim>\<open>dict\<close>
  keeps); \<open>map_of\<close> reads a key and \<open>AList.update\<close> is the assignment
  \<^verbatim>\<open>d[k] = v\<close>: it replaces the value in place when the key is there and appends the
  pair otherwise. A float is carried around and never computed on.
\<close>

datatype pyval =
    PNone
  | PBool bool
  | PInt int
  | PFloat real
  | PStr string
  | PList "pyval list"
  | PDict "(string \<times> pyval) list"

type_synonym pydict = "(string \<times> pyval) list"

text \<open>The Python value of \<^verbatim>\<open>d.get(key)\<close> for a key that holds a string when present.\<close>

fun py_str :: "string option \<Rightarrow> pyval" where
  "py_str None = PNone"
| "py_str (Some s) = PStr s"

section \<open>Steps, tasks and agents\<close>

text \<open>
  A step descriptor is a dictionary of which the engine reads three keys with
  \<^verbatim>\<open>step.get\<close>: \<^verbatim>\<open>"agent_id"\<close> and \<^verbatim>\<open>"task_type"\<close> (\<open>None\<close> when the key is absent,
  which is Python's \<^verbatim>\<open>None\<close>) and \<^verbatim>\<open>"parameters"\<close> (\<open>None\<close> when absent, where the code
  takes the default \<^verbatim>\<open>{}\<close>). The agent identifier is a string, the key type of
  \<^verbatim>\<open>Dict[str, Agent]\<close>. Every other key of the descriptor is in \<open>s_other\<close>; the engine
  never reads it.
\<close>

record step =
  s_agent_id :: "string option"
  s_task_type :: "string option"
  s_parameters :: "pydict option"
  s_other :: pydict

text \<open>
  Modelled from the spec: \<^verbatim>\<open>Task\<close> and \<^verbatim>\<open>TaskStatus\<close> of \<^verbatim>\<open>src.adk_core\<close> and
  \<^verbatim>\<open>Agent\<close> of \<^verbatim>\<open>src.agents\<close> are imported, not defined, by \<^verbatim>\<open>workflow.py\<close>. The task has
  the four fields the constructor call names; the status has the states of the spec's
  state machine; the result has the fields of the spec's TaskResult, of which the
  engine reads \<open>success\<close>, \<open>result\<close> and \<open>execution_time\<close>.
\<close>

datatype TaskStatus = PENDING | RUNNING | COMPLETED | FAILED | SKIPPED

record Task =
  task_id :: string
  task_type :: "string option"
  status :: TaskStatus
  parameters :: pydict

record TaskResult =
  success :: bool
  result :: pyval
  execution_time :: pyval
  failure_detail :: "string option"

text \<open>
  Modelled from the spec: an agent is identified by a string and exposes one
  operation, \<^verbatim>\<open>execute_task(task)\<close>, which always answers with a TaskResult (a failure is
  the result's flag). An agent is an object with a state of its own: all the state
  that agents own is the value of type \<open>'x\<close>, which each call reads and may change.
\<close>

record 'x Agent =
  agent_id :: string
  agent_name :: string
  execute_task :: "Task \<Rightarrow> 'x \<Rightarrow> TaskResult \<times> 'x"

section \<open>The environment of a call\<close>

text \<open>
  What the engine takes from outside: \<^verbatim>\<open>datetime.now().isoformat()\<close> and
  \<^verbatim>\<open>str(uuid.uuid4())\<close>. Each is an oracle, the answer to the n-th call, with the
  number of calls made so far. \<open>invoked\<close> is the sequence of \<^verbatim>\<open>execute_task\<close> calls made
  so far, each the key of the agent and the task it was handed; \<open>agent_state\<close> is the
  state the agents own. The logger calls are left out.
\<close>

record 'x world =
  isoformat_now :: "nat \<Rightarrow> string"
  now_calls :: nat
  uuid4 :: "nat \<Rightarrow> string"
  uuid4_calls :: nat
  invoked :: "(string \<times> Task) list"
  agent_state :: 'x

section \<open>WorkflowEngine\<close>

record workflow =
  workflow_id :: string
  name :: string
  steps :: "step list"
  created_at :: string

record WorkflowEngine =
  workflows :: "(string \<times> workflow) list"
  execution_history :: "pydict list"

definition WorkflowEngine_init :: WorkflowEngine where
  "WorkflowEngine_init = \<lparr>workflows = [], execution_history = []\<rparr>"

definition define_workflow ::
  "WorkflowEngine \<Rightarrow> string \<Rightarrow> string \<Rightarrow> step list \<Rightarrow> 'x world
    \<Rightarrow> workflow \<times> WorkflowEngine \<times> 'x world" where
  "define_workflow self wid nm sts w =
     (let workflow = \<lparr>workflow_id = wid, name = nm, steps = sts,
                created_at = isoformat_now w (now_calls w)\<rparr>
      in (workflow,
          self\<lparr>workflows := AList.update wid workflow (workflows self)\<rparr>,
          w\<lparr>now_calls := Suc (now_calls w)\<rparr>))"

text \<open>The two dictionaries the loop appends to \<^verbatim>\<open>execution["steps"]\<close>.\<close>

definition agent_not_found :: "step \<Rightarrow> pydict" where
  "agent_not_found s =
     [(''agent_id'', py_str (s_agent_id s)),
      (''status'', PStr ''failed''),
      (''error'', PStr ''Agent not found'')]"

definition step_done :: "step \<Rightarrow> TaskResult \<Rightarrow> pydict" where
  "step_done s r =
     [(''agent_id'', py_str (s_agent_id s)),
      (''task_type'', py_str (s_task_type s)),
      (''status'', PStr (if success r then ''completed'' else ''failed'')),
      (''result'', result r),
      (''execution_time'', execution_time r)]"

text \<open>
  The \<^verbatim>\<open>Task(...)\<close> call for a step: \<open>u\<close> is the string of the identifier just drawn.
\<close>

definition make_task :: "string \<Rightarrow> step \<Rightarrow> Task" where
  "make_task u s =
     \<lparr>task_id = u,
      task_type = s_task_type s,
      status = PENDING,
      parameters = (case s_parameters s of None \<Rightarrow> [] | Some p \<Rightarrow> p)\<rparr>"

text \<open>\<^verbatim>\<open>agent_id not in agents\<close> and \<^verbatim>\<open>agents[agent_id]\<close>; \<^verbatim>\<open>None\<close> is no key of the map.\<close>

definition find_agent :: "(string \<rightharpoonup> 'x Agent) \<Rightarrow> step \<Rightarrow> (string \<times> 'x Agent) option" where
  "find_agent agents s =
     (case s_agent_id s of
        None \<Rightarrow> None
      | Some k \<Rightarrow> (case agents k of None \<Rightarrow> None | Some a \<Rightarrow> Some (k, a)))"

text \<open>
  The \<^verbatim>\<open>for step in workflow["steps"]\<close> loop; \<open>acc\<close> is \<^verbatim>\<open>execution["steps"]\<close>.
\<close>

fun run_steps ::
  "(string \<rightharpoonup> 'x Agent) \<Rightarrow> step list \<Rightarrow> pydict list \<Rightarrow> 'x world
    \<Rightarrow> pydict list \<times> 'x world" where
  "run_steps agents [] acc w = (acc, w)"
| "run_steps agents (s # rest) acc w =
     (case find_agent agents s of
        None \<Rightarrow> run_steps agents rest (acc @ [agent_not_found s]) w
      | Some (k, agent) \<Rightarrow>
          (let task = make_task (uuid4 w (uuid4_calls w)) s;
               (r, x) = execute_task agent task (agent_state w)
           in run_steps agents rest (acc @ [step_done s r])
                (w\<lparr>uuid4_calls := Suc (uuid4_calls w),
                   invoked := invoked w @ [(k, task)],
                   agent_state := x\<rparr>)))"

definition workflow_not_found :: pydict where
  "workflow_not_found = [(''success'', PBool False), (''error'', PStr ''Workflow not found'')]"

definition execute_workflow ::
  "WorkflowEngine \<Rightarrow> string \<Rightarrow> (string \<rightharpoonup> 'x Agent) \<Rightarrow> 'x world
    \<Rightarrow> pydict \<times> WorkflowEngine \<times> 'x world" where
  "execute_workflow self wid agents w =
     (case map_of (workflows self) wid of
        None \<Rightarrow> (workflow_not_found, self, w)
      | Some workflow \<Rightarrow>
          (let started_at = isoformat_now w (now_calls w);
               (outs, w') = run_steps agents (steps workflow) [] (w\<lparr>now_calls := Suc (now_calls w)\<rparr>);
               execution =
                 [(''workflow_id'', PStr wid),
                  (''started_at'', PStr started_at),
                  (''steps'', PList (map PDict outs)),
                  (''completed_at'', PStr (isoformat_now w' (now_calls w')))]
           in (execution,
               self\<lparr>execution_history := execution_history self @ [execution]\<rparr>,
               w'\<lparr>now_calls := Suc (now_calls w')\<rparr>)))"

definition get_stats :: "WorkflowEngine \<Rightarrow> pydict" where
  "get_stats self =
     [(''workflows_defined'', PInt (int (length (workflows self)))),
      (''workflows_executed'', PInt (int (length (execution_history self)))),
      (''workflows'', PList (map (\<lambda>p. PStr (fst p)) (workflows self)))]"

section \<open>SystemOrchestrator\<close>

record 'x SystemOrchestrator =
  agents :: "(string \<times> 'x Agent) list"
  workflow_engine :: WorkflowEngine

definition SystemOrchestrator_init :: "'x SystemOrchestrator" where
  "SystemOrchestrator_init = \<lparr>agents = [], workflow_engine = WorkflowEngine_init\<rparr>"

definition register_agent ::
  "'x SystemOrchestrator \<Rightarrow> 'x Agent \<Rightarrow> bool \<times> 'x SystemOrchestrator" where
  "register_agent self agent =
     (True, self\<lparr>agents := AList.update (agent_id agent) agent (agents self)\<rparr>)"

section \<open>Reading a run\<close>

text \<open>
  \<^verbatim>\<open>execution["steps"]\<close>, the list of outcome dictionaries of an execution record (empty
  for a dictionary without that key, as the failure dictionary is).
\<close>

fun outcome_dicts :: "pyval list \<Rightarrow> pydict list" where
  "outcome_dicts [] = []"
| "outcome_dicts (PDict d # vs) = d # outcome_dicts vs"
| "outcome_dicts (v # vs) = outcome_dicts vs"

definition step_outcomes :: "pydict \<Rightarrow> pydict list" where
  "step_outcomes execution =
     (case map_of execution ''steps'' of Some (PList vs) \<Rightarrow> outcome_dicts vs | _ \<Rightarrow> [])"

text \<open>A step has an agent when its \<^verbatim>\<open>"agent_id"\<close> is a key of the agents map.\<close>

definition has_agent :: "(string \<rightharpoonup> 'x Agent) \<Rightarrow> step \<Rightarrow> bool" where
  "has_agent ags s =
     (case s_agent_id s of
        None \<Rightarrow> False
      | Some k \<Rightarrow> (case ags k of None \<Rightarrow> False | Some a \<Rightarrow> True))"

definition dispatched :: "(string \<rightharpoonup> 'x Agent) \<Rightarrow> step list \<Rightarrow> step list" where
  "dispatched ags sts = filter (has_agent ags) sts"

text \<open>The \<^verbatim>\<open>execute_task\<close> calls that a call of the engine added to the log.\<close>

definition new_invocations :: "'x world \<Rightarrow> 'x world \<Rightarrow> (string \<times> Task) list" where
  "new_invocations w w' = drop (length (invoked w)) (invoked w')"

text \<open>The calls a loop over \<open>sts\<close> makes, the first with the \<open>c\<close>-th identifier.\<close>

fun loop_calls ::
  "(string \<rightharpoonup> 'x Agent) \<Rightarrow> (nat \<Rightarrow> string) \<Rightarrow> nat \<Rightarrow> step list \<Rightarrow> (string \<times> Task) list" where
  "loop_calls ags u c [] = []"
| "loop_calls ags u c (s # rest) =
     (case find_agent ags s of
        None \<Rightarrow> loop_calls ags u c rest
      | Some (k, a) \<Rightarrow> (k, make_task (u c) s) # loop_calls ags u (Suc c) rest)"

section \<open>Sequences of calls on an engine\<close>

text \<open>
  A client of the engine makes \<^verbatim>\<open>define_workflow\<close> and \<^verbatim>\<open>execute_workflow\<close> calls in any
  order; \<open>run_calls\<close> makes them one after the other.
\<close>

datatype 'x call =
    Define string string "step list"
  | Execute string "string \<rightharpoonup> 'x Agent"

fun apply_call :: "WorkflowEngine \<times> 'x world \<Rightarrow> 'x call \<Rightarrow> WorkflowEngine \<times> 'x world" where
  "apply_call (self, w) (Define wid nm sts) = snd (define_workflow self wid nm sts w)"
| "apply_call (self, w) (Execute wid ags) = snd (execute_workflow self wid ags w)"

definition run_calls ::
  "'x call list \<Rightarrow> WorkflowEngine \<times> 'x world \<Rightarrow> WorkflowEngine \<times> 'x world" where
  "run_calls cs st = foldl apply_call st cs"

text \<open>The identifiers of the \<^verbatim>\<open>define_workflow\<close> calls, in the order of the calls.\<close>

fun defined_ids :: "'x call list \<Rightarrow> string list" where
  "defined_ids [] = []"
| "defined_ids (Define wid nm sts # cs) = wid # defined_ids cs"
| "defined_ids (Execute wid ags # cs) = defined_ids cs"

text \<open>
  Insertion order: every key once, where it was inserted first (a later insertion of
  the same key does not move it).
\<close>

fun insertion_order :: "'a list \<Rightarrow> 'a list" where
  "insertion_order [] = []"
| "insertion_order (k # ks) = k # removeAll k (insertion_order ks)"

text \<open>
  The number of \<^verbatim>\<open>execute_workflow\<close> calls whose identifier was defined when the call was
  made; \<open>seen\<close> are the identifiers defined before the first call of the list.
\<close>

fun count_executions :: "string set \<Rightarrow> 'x call list \<Rightarrow> nat" where
  "count_executions seen [] = 0"
| "count_executions seen (Define wid nm sts # cs) = count_executions (insert wid seen) cs"
| "count_executions seen (Execute wid ags # cs) =
     (if wid \<in> seen then 1 else 0) + count_executions seen cs"

section \<open>A sample system\<close>

text \<open>
  Two agents that count the tasks they were handed (the state they own is that
  counter): the first succeeds, the second reports a failure. The workflow \<^verbatim>\<open>W1\<close> has
  three steps; the second names an agent that is not registered.
\<close>

definition analyst :: "nat Agent" where
  "analyst =
     \<lparr>agent_id = ''a1'', agent_name = ''Analyst'',
      execute_task = (\<lambda>t n.
        (\<lparr>success = True, result = PInt (int n), execution_time = PFloat 2,
          failure_detail = None\<rparr>, Suc n))\<rparr>"

definition reporter :: "nat Agent" where
  "reporter =
     \<lparr>agent_id = ''a2'', agent_name = ''Reporter'',
      execute_task = (\<lambda>t n.
        (\<lparr>success = False, result = PNone, execution_time = PFloat 3,
          failure_detail = Some ''no data''\<rparr>, Suc n))\<rparr>"

definition sample_agents :: "string \<rightharpoonup> nat Agent" where
  "sample_agents = [''a1'' \<mapsto> analyst, ''a2'' \<mapsto> reporter]"

definition step_a :: step where
  "step_a =
     \<lparr>s_agent_id = Some ''a1'', s_task_type = Some ''analyze'',
      s_parameters = Some [(''depth'', PInt 2)], s_other = [(''step_id'', PStr ''s1'')]\<rparr>"

definition step_ghost :: step where
  "step_ghost =
     \<lparr>s_agent_id = Some ''ghost'', s_task_type = Some ''noop'',
      s_parameters = None, s_other = []\<rparr>"

definition step_b :: step where
  "step_b =
     \<lparr>s_agent_id = Some ''a2'', s_task_type = Some ''report'',
      s_parameters = None, s_other = [(''step_id'', PStr ''s3'')]\<rparr>"

definition sample_world :: "nat world" where
  "sample_world =
     \<lparr>isoformat_now = (\<lambda>n. replicate (Suc n) CHR ''t''), now_calls = 0,
      uuid4 = (\<lambda>n. replicate (Suc n) CHR ''u''), uuid4_calls = 0,
      invoked = [], agent_state = 0\<rparr>"

definition sample_workflow :: workflow where
  "sample_workflow =
     \<lparr>workflow_id = ''W1'', name = ''sample'', steps = [step_a, step_ghost, step_b],
      created_at = ''t''\<rparr>"

definition sample_engine :: WorkflowEngine where
  "sample_engine =
     fst (snd (define_workflow WorkflowEngine_init ''W1'' ''sample''
       [step_a, step_ghost, step_b] sample_world))"

text \<open>The workflow \<^verbatim>\<open>W1\<close> defined twice on a new engine, with different steps.\<close>

definition defined_once :: "workflow \<times> WorkflowEngine \<times> nat world" where
  "defined_once = define_workflow WorkflowEngine_init ''W1'' ''first'' [step_a] sample_world"

definition defined_twice :: "workflow \<times> WorkflowEngine \<times> nat world" where
  "defined_twice =
     define_workflow (fst (snd defined_once)) ''W1'' ''second'' [step_b] (snd (snd defined_once))"

text \<open>An orchestrator with the first agent registered, and a second agent of the same id.\<close>

definition sample_orchestrator :: "nat SystemOrchestrator" where
  "sample_orchestrator =
     snd (register_agent (snd (register_agent SystemOrchestrator_init analyst)) reporter)"

definition analyst_again :: "nat Agent" where
  "analyst_again = analyst\<lparr>agent_name := ''Analyst, second''\<rparr>"

section \<open>Properties\<close>

subsection \<open>The loop\<close>


lemma run_steps_acc:
  "run_steps ags sts acc w = (acc @ fst (run_steps ags sts [] w), snd (run_steps ags sts [] w))"
proof (induction sts arbitrary: acc w)
  case Nil
  show ?case by simp
next
  case (Cons s rest)
  show ?case
  proof (cases "find_agent ags s")
    case None
    then show ?thesis
      using Cons.IH [of "acc @ [agent_not_found s]" w] Cons.IH [of "[agent_not_found s]" w]
      by simp
  next
    case (Some p)
    obtain k a where p: "p = (k, a)" by (cases p)
    let ?t = "make_task (uuid4 w (uuid4_calls w)) s"
    obtain r x where rx: "execute_task a ?t (agent_state w) = (r, x)"
      by (cases "execute_task a ?t (agent_state w)")
    let ?w = "w\<lparr>uuid4_calls := Suc (uuid4_calls w), invoked := invoked w @ [(k, ?t)], agent_state := x\<rparr>"
    show ?thesis
      using Some p rx Cons.IH [of "acc @ [step_done s r]" ?w] Cons.IH [of "[step_done s r]" ?w]
      by (simp add: Let_def)
  qed
qed

lemma run_steps_append:
  "run_steps ags (xs @ ys) acc w =
     run_steps ags ys (fst (run_steps ags xs acc w)) (snd (run_steps ags xs acc w))"
  by (induction xs arbitrary: acc w) (simp_all add: Let_def split: option.split prod.split)


lemma run_steps_found:
  "find_agent ags s = Some (k, a) \<Longrightarrow>
   run_steps ags [s] [] w =
     ([step_done s (fst (execute_task a (make_task (uuid4 w (uuid4_calls w)) s) (agent_state w)))],
      w\<lparr>uuid4_calls := Suc (uuid4_calls w),
        invoked := invoked w @ [(k, make_task (uuid4 w (uuid4_calls w)) s)],
        agent_state := snd (execute_task a (make_task (uuid4 w (uuid4_calls w)) s) (agent_state w))\<rparr>)"
  by (simp add: Let_def split: prod.split)

lemma run_steps_length:
  "length (fst (run_steps ags sts acc w)) = length acc + length sts"
  by (induction sts arbitrary: acc w) (simp_all add: Let_def split: option.split prod.split)

lemma run_steps_oracles:
  "isoformat_now (snd (run_steps ags sts acc w)) = isoformat_now w \<and>
   now_calls (snd (run_steps ags sts acc w)) = now_calls w \<and>
   uuid4 (snd (run_steps ags sts acc w)) = uuid4 w"
  by (induction sts arbitrary: acc w) (simp_all add: Let_def split: option.split prod.split)

lemma find_agent_None: "find_agent ags s = None \<longleftrightarrow> \<not> has_agent ags s"
  by (simp add: find_agent_def has_agent_def split: option.split)

lemma find_agent_Some:
  "find_agent ags s = Some (k, a) \<longleftrightarrow> s_agent_id s = Some k \<and> ags k = Some a"
  by (auto simp add: find_agent_def split: option.split)


lemma has_agent_find:
  "has_agent ags s \<Longrightarrow> \<exists>k a. find_agent ags s = Some (k, a) \<and> s_agent_id s = Some k \<and> ags k = Some a"
  by (auto simp add: find_agent_def has_agent_def split: option.splits)

lemma no_agent_find: "\<not> has_agent ags s \<Longrightarrow> find_agent ags s = None"
  by (simp add: find_agent_None)

lemma run_steps_invoked:
  "invoked (snd (run_steps ags sts acc w)) =
     invoked w @ loop_calls ags (uuid4 w) (uuid4_calls w) sts"
  by (induction sts arbitrary: acc w) (simp_all add: Let_def split: option.split prod.split)

lemma run_steps_uuid4_calls:
  "uuid4_calls (snd (run_steps ags sts acc w)) = uuid4_calls w + length (dispatched ags sts)"
proof (induction sts arbitrary: acc w)
  case Nil
  show ?case by (simp add: dispatched_def)
next
  case (Cons s rest)
  show ?case
  proof (cases "has_agent ags s")
    case False
    then show ?thesis using Cons.IH by (simp add: dispatched_def no_agent_find)
  next
    case True
    then obtain k a where "find_agent ags s = Some (k, a)" using has_agent_find by blast
    then show ?thesis using True Cons.IH
      by (simp add: dispatched_def Let_def split: prod.split)
  qed
qed

lemma loop_calls_length: "length (loop_calls ags u c sts) = length (dispatched ags sts)"
proof (induction sts arbitrary: c)
  case Nil
  show ?case by (simp add: dispatched_def)
next
  case (Cons s rest)
  show ?case
  proof (cases "has_agent ags s")
    case False
    then show ?thesis using Cons.IH by (simp add: dispatched_def no_agent_find)
  next
    case True
    then obtain k a where "find_agent ags s = Some (k, a)" using has_agent_find by blast
    then show ?thesis using True Cons.IH by (simp add: dispatched_def)
  qed
qed





subsection \<open>The engine\<close>

lemma execute_workflow_workflows:
  "workflows (fst (snd (execute_workflow self wid ags w))) = workflows self"
  by (simp add: execute_workflow_def Let_def split: option.split prod.split)

lemma outcome_dicts_PDict: "outcome_dicts (map PDict ds) = ds"
  by (induction ds) simp_all

lemma execute_workflow_missing:
  "map_of (workflows self) wid = None \<Longrightarrow>
   execute_workflow self wid ags w = (workflow_not_found, self, w)"
  by (simp add: execute_workflow_def)

lemma execute_workflow_stored:
  assumes "map_of (workflows self) wid = Some wfl"
  shows "execute_workflow self wid ags w =
     (let w0 = w\<lparr>now_calls := Suc (now_calls w)\<rparr>;
          run = run_steps ags (steps wfl) [] w0;
          execution =
            [(''workflow_id'', PStr wid),
             (''started_at'', PStr (isoformat_now w (now_calls w))),
             (''steps'', PList (map PDict (fst run))),
             (''completed_at'', PStr (isoformat_now w (Suc (now_calls w))))]
      in (execution,
          self\<lparr>execution_history := execution_history self @ [execution]\<rparr>,
          (snd run)\<lparr>now_calls := Suc (Suc (now_calls w))\<rparr>))"
  using assms run_steps_oracles [of ags "steps wfl" "[]" "w\<lparr>now_calls := Suc (now_calls w)\<rparr>"]
  by (simp add: execute_workflow_def Let_def case_prod_beta)

lemma step_outcomes_stored:
  assumes "map_of (workflows self) wid = Some wfl"
  shows "step_outcomes (fst (execute_workflow self wid ags w)) =
     fst (run_steps ags (steps wfl) [] (w\<lparr>now_calls := Suc (now_calls w)\<rparr>))"
  by (simp add: execute_workflow_stored [OF assms] Let_def step_outcomes_def outcome_dicts_PDict)

lemma history_stored:
  assumes "map_of (workflows self) wid = Some wfl"
  shows "execution_history (fst (snd (execute_workflow self wid ags w))) =
     execution_history self @ [fst (execute_workflow self wid ags w)]"
  by (simp add: execute_workflow_stored [OF assms] Let_def)

lemma invoked_stored:
  assumes "map_of (workflows self) wid = Some wfl"
  shows "invoked (snd (snd (execute_workflow self wid ags w))) =
     invoked w @ loop_calls ags (uuid4 w) (uuid4_calls w) (steps wfl)"
  by (simp add: execute_workflow_stored [OF assms] Let_def run_steps_invoked)



lemma run_steps_split:
  "run_steps ags (pre @ s # post) [] w =
     (fst (run_steps ags pre [] w) @ fst (run_steps ags [s] [] (snd (run_steps ags pre [] w)))
        @ fst (run_steps ags post [] (snd (run_steps ags [s] [] (snd (run_steps ags pre [] w))))),
      snd (run_steps ags post [] (snd (run_steps ags [s] [] (snd (run_steps ags pre [] w))))))"
proof -
  let ?r1 = "run_steps ags pre [] w"
  let ?r2 = "run_steps ags [s] [] (snd ?r1)"
  let ?r3 = "run_steps ags post [] (snd ?r2)"
  have a: "run_steps ags (pre @ s # post) [] w = run_steps ags (s # post) (fst ?r1) (snd ?r1)"
    by (rule run_steps_append)
  have b: "run_steps ags (s # post) (fst ?r1) (snd ?r1) =
      (fst ?r1 @ fst (run_steps ags (s # post) [] (snd ?r1)), snd (run_steps ags (s # post) [] (snd ?r1)))"
    by (rule run_steps_acc)
  have c: "run_steps ags ([s] @ post) [] (snd ?r1) = run_steps ags post (fst ?r2) (snd ?r2)"
    by (rule run_steps_append)
  have d: "run_steps ags post (fst ?r2) (snd ?r2) = (fst ?r2 @ fst ?r3, snd ?r3)"
    by (rule run_steps_acc)
  show ?thesis using a b c d by simp
qed

lemma run_steps_outcomes:
  "list_all2 (\<lambda>s d. d = agent_not_found s \<or> (\<exists>r. d = step_done s r))
     sts (fst (run_steps ags sts [] w))"
proof (induction sts arbitrary: w)
  case Nil
  show ?case by simp
next
  case (Cons s rest)
  have sp: "run_steps ags (s # rest) [] w =
      (fst (run_steps ags [s] [] w) @ fst (run_steps ags rest [] (snd (run_steps ags [s] [] w))),
       snd (run_steps ags rest [] (snd (run_steps ags [s] [] w))))"
    using run_steps_split [of ags "[]" s rest w] by simp
  show ?case
  proof (cases "has_agent ags s")
    case False
    then have "run_steps ags [s] [] w = ([agent_not_found s], w)"
      by (simp add: no_agent_find)
    then show ?thesis using sp Cons.IH [of w] by simp
  next
    case True
    then obtain k a where f: "find_agent ags s = Some (k, a)" using has_agent_find by blast
    show ?thesis
      using sp run_steps_found [OF f, of w] Cons.IH by auto
  qed
qed

subsection \<open>The sample system\<close>

lemma sample_engine_workflows: "workflows sample_engine = [(''W1'', sample_workflow)]"
  by (simp add: sample_engine_def define_workflow_def WorkflowEngine_init_def sample_world_def
      sample_workflow_def Let_def)

lemma sample_engine_history: "execution_history sample_engine = []"
  by (simp add: sample_engine_def define_workflow_def WorkflowEngine_init_def Let_def)

lemma sample_stored: "map_of (workflows sample_engine) ''W1'' = Some sample_workflow"
  by (simp add: sample_engine_workflows)

lemma sample_outcomes:
  "step_outcomes (fst (execute_workflow sample_engine ''W1'' sample_agents sample_world)) =
     [ [(''agent_id'', PStr ''a1''), (''task_type'', PStr ''analyze''),
        (''status'', PStr ''completed''), (''result'', PInt 0), (''execution_time'', PFloat 2)],
      [(''agent_id'', PStr ''ghost''), (''status'', PStr ''failed''),
       (''error'', PStr ''Agent not found'')],
      [(''agent_id'', PStr ''a2''), (''task_type'', PStr ''report''),
       (''status'', PStr ''failed''), (''result'', PNone), (''execution_time'', PFloat 3)] ]"
  by (simp add: step_outcomes_stored [OF sample_stored] sample_workflow_def sample_world_def
      sample_agents_def find_agent_def step_a_def step_ghost_def step_b_def analyst_def
      reporter_def make_task_def step_done_def agent_not_found_def Let_def)

lemma sample_invoked:
  "new_invocations sample_world
     (snd (snd (execute_workflow sample_engine ''W1'' sample_agents sample_world))) =
   [(''a1'', \<lparr>task_id = ''u'', task_type = Some ''analyze'', status = PENDING,
              parameters = [(''depth'', PInt 2)]\<rparr>),
    (''a2'', \<lparr>task_id = ''uu'', task_type = Some ''report'', status = PENDING,
              parameters = []\<rparr>)]"
  by (simp add: new_invocations_def invoked_stored [OF sample_stored] sample_workflow_def
      sample_world_def sample_agents_def find_agent_def step_a_def step_ghost_def step_b_def
      make_task_def)

subsection \<open>Definitions, call sequences and registration\<close>

lemma filter_removeAll_member:
  "k \<in> S \<Longrightarrow> filter (\<lambda>x. x \<notin> S) (removeAll k xs) = filter (\<lambda>x. x \<notin> S) xs"
  by (induction xs) auto

lemma filter_insert_removeAll:
  "filter (\<lambda>x. x \<noteq> k \<and> x \<notin> S) xs = filter (\<lambda>x. x \<notin> S) (removeAll k xs)"
  by (induction xs) auto

lemma set_insertion_order: "set (insertion_order ks) = set ks"
  by (induction ks) auto

lemma distinct_insertion_order: "distinct (insertion_order ks)"
  by (induction ks) (auto simp add: distinct_removeAll)

lemma define_workflow_engine:
  "fst (snd (define_workflow self wid nm sts w)) =
     self\<lparr>workflows := AList.update wid
        \<lparr>workflow_id = wid, name = nm, steps = sts, created_at = isoformat_now w (now_calls w)\<rparr>
        (workflows self)\<rparr>"
  by (simp add: define_workflow_def Let_def)

lemma run_calls_Cons: "run_calls (c # cs) st = run_calls cs (apply_call st c)"
  by (simp add: run_calls_def)

lemma run_calls_keys:
  "map fst (workflows (fst (run_calls cs (self, w)))) =
     map fst (workflows self) @
     filter (\<lambda>k. k \<notin> fst ` set (workflows self)) (insertion_order (defined_ids cs))"
proof (induction cs arbitrary: self w)
  case Nil
  show ?case by (simp add: run_calls_def)
next
  case (Cons c cs)
  show ?case
  proof (cases c)
    case (Define wid nm sts)
    let ?d = "define_workflow self wid nm sts w"
    let ?e = "fst (snd ?d)"
    have r: "run_calls (c # cs) (self, w) = run_calls cs (?e, snd (snd ?d))"
      using Define by (simp add: run_calls_Cons)
    have ih: "map fst (workflows (fst (run_calls cs (?e, snd (snd ?d))))) =
        map fst (workflows ?e) @
        filter (\<lambda>k. k \<notin> fst ` set (workflows ?e)) (insertion_order (defined_ids cs))"
      by (rule Cons.IH)
    have k: "map fst (workflows ?e) =
        (if wid \<in> set (map fst (workflows self)) then map fst (workflows self)
         else map fst (workflows self) @ [wid])"
      by (simp add: define_workflow_engine update_keys)
    have s: "fst ` set (workflows ?e) = insert wid (fst ` set (workflows self))"
      by (simp add: define_workflow_engine dom_update)
    show ?thesis
    proof (cases "wid \<in> fst ` set (workflows self)")
      case True
      then have "insert wid (fst ` set (workflows self)) = fst ` set (workflows self)" by auto
      then show ?thesis
        using True r ih k s Define by (simp add: filter_removeAll_member)
    next
      case False
      then show ?thesis
        using r ih k s Define by (simp add: filter_insert_removeAll)
    qed
  next
    case (Execute wid ags)
    have r: "run_calls (c # cs) (self, w) =
        run_calls cs (fst (snd (execute_workflow self wid ags w)), snd (snd (execute_workflow self wid ags w)))"
      using Execute by (simp add: run_calls_Cons)
    show ?thesis
      using r Execute Cons.IH [of "fst (snd (execute_workflow self wid ags w))"
          "snd (snd (execute_workflow self wid ags w))"]
      by (simp add: execute_workflow_workflows)
  qed
qed

lemma run_calls_history:
  "length (execution_history (fst (run_calls cs (self, w)))) =
     length (execution_history self) + count_executions (fst ` set (workflows self)) cs"
proof (induction cs arbitrary: self w)
  case Nil
  show ?case by (simp add: run_calls_def)
next
  case (Cons c cs)
  show ?case
  proof (cases c)
    case (Define wid nm sts)
    let ?d = "define_workflow self wid nm sts w"
    have r: "run_calls (c # cs) (self, w) = run_calls cs (fst (snd ?d), snd (snd ?d))"
      using Define by (simp add: run_calls_Cons)
    have s: "fst ` set (workflows (fst (snd ?d))) = insert wid (fst ` set (workflows self))"
      by (simp add: define_workflow_engine dom_update)
    have h: "execution_history (fst (snd ?d)) = execution_history self"
      by (simp add: define_workflow_engine)
    show ?thesis
      using r s h Define Cons.IH [of "fst (snd ?d)" "snd (snd ?d)"] by simp
  next
    case (Execute wid ags)
    let ?x = "execute_workflow self wid ags w"
    have r: "run_calls (c # cs) (self, w) = run_calls cs (fst (snd ?x), snd (snd ?x))"
      using Execute by (simp add: run_calls_Cons)
    have k: "fst ` set (workflows (fst (snd ?x))) = fst ` set (workflows self)"
      by (simp add: execute_workflow_workflows)
    show ?thesis
    proof (cases "map_of (workflows self) wid")
      case None
      then have "wid \<notin> fst ` set (workflows self)" by (simp add: map_of_eq_None_iff)
      moreover have "execution_history (fst (snd ?x)) = execution_history self"
        by (simp add: execute_workflow_missing [OF None])
      ultimately show ?thesis
        using r k Execute Cons.IH [of "fst (snd ?x)" "snd (snd ?x)"] by simp
    next
      case (Some wfl)
      then have "wid \<in> fst ` set (workflows self)"
        using map_of_eq_None_iff [of "workflows self" wid] by simp
      moreover have "length (execution_history (fst (snd ?x))) = Suc (length (execution_history self))"
        by (simp add: history_stored [OF Some])
      ultimately show ?thesis
        using r k Execute Cons.IH [of "fst (snd ?x)" "snd (snd ?x)"] by simp
    qed
  qed
qed

lemma map_of_Some_key: "map_of al k = Some v \<Longrightarrow> k \<in> set (map fst al)"
  using map_of_eq_None_iff [of al k] by auto

lemma sample_orchestrator_agents:
  "agents sample_orchestrator = [(''a1'', analyst), (''a2'', reporter)]"
  by (simp add: sample_orchestrator_def register_agent_def SystemOrchestrator_init_def
      analyst_def reporter_def)

lemma outcome_status:
  "d = agent_not_found s \<or> (\<exists>r. d = step_done s r) \<Longrightarrow>
   map_of d ''status'' \<in> {Some (PStr ''completed''), Some (PStr ''failed''), Some (PStr ''skipped'')}"
  by (auto simp add: agent_not_found_def step_done_def)

lemma run_steps_statuses:
  assumes "d \<in> set (fst (run_steps ags sts [] w))"
  shows "map_of d ''status'' \<in>
    {Some (PStr ''completed''), Some (PStr ''failed''), Some (PStr ''skipped'')}"
proof -
  have l: "list_all2 (\<lambda>s d. d = agent_not_found s \<or> (\<exists>r. d = step_done s r))
     sts (fst (run_steps ags sts [] w))"
    by (rule run_steps_outcomes)
  from assms obtain i where i: "i < length (fst (run_steps ags sts [] w))"
      "fst (run_steps ags sts [] w) ! i = d"
    by (auto simp add: in_set_conv_nth)
  from l i have "d = agent_not_found (sts ! i) \<or> (\<exists>r. d = step_done (sts ! i) r)"
    by (auto simp add: list_all2_conv_all_nth)
  then show ?thesis by (rule outcome_status)
qed

lemma stats_example:
  "get_stats (fst (run_calls
      [Define ''W1'' ''one'' [step_a], Define ''W2'' ''two'' [],
       Execute ''W1'' sample_agents, Execute ''W9'' sample_agents,
       Define ''W1'' ''one again'' [step_b], Execute ''W2'' sample_agents]
      (WorkflowEngine_init, sample_world))) =
   [(''workflows_defined'', PInt 2), (''workflows_executed'', PInt 2),
    (''workflows'', PList [PStr ''W1'', PStr ''W2''])]"
  by (simp add: run_calls_def get_stats_def define_workflow_def execute_workflow_def
      WorkflowEngine_init_def Let_def case_prod_beta)

section \<open>The claims\<close>

text \<open>
  Claim C1 as written (the second call fails and leaves the stored steps unchanged)
  does not hold: \<^verbatim>\<open>W1\<close> defined with one step and then again with another step. The
  second call returns its definition, and the stored steps are those of the second
  call.
\<close>

theorem second_define_overwrites_counterexample:
  "map_option steps (map_of (workflows (fst (snd defined_once))) ''W1'') = Some [step_a] \<and>
   fst defined_twice =
     \<lparr>workflow_id = ''W1'', name = ''second'', steps = [step_b], created_at = ''tt''\<rparr> \<and>
   map_option steps (map_of (workflows (fst (snd defined_twice))) ''W1'') = Some [step_b] \<and>
   map_option steps (map_of (workflows (fst (snd defined_twice))) ''W1'') \<noteq>
     map_option steps (map_of (workflows (fst (snd defined_once))) ''W1'')"
  by (simp add: defined_once_def defined_twice_def define_workflow_def WorkflowEngine_init_def
      sample_world_def Let_def step_a_def step_b_def)

text \<open>
  Claim C1, as the code has it. \<^verbatim>\<open>define_workflow\<close> has no duplicate check and no
  replace flag: it never fails. Called with an id that is already stored, it returns
  the new definition and stores it under the id in place of the earlier one, so the
  stored steps are those of the second call. The definitions under other ids, the
  order and number of the stored ids and the ledger stay as they were.
\<close>

theorem redefinition_replaces_definition:
  assumes "map_of (workflows self) wid = Some old"
  shows "(let (wfl, self', w') = define_workflow self wid nm sts w
          in wfl = \<lparr>workflow_id = wid, name = nm, steps = sts,
                    created_at = isoformat_now w (now_calls w)\<rparr> \<and>
             map_of (workflows self') wid = Some wfl \<and>
             steps wfl = sts \<and>
             (\<forall>k. k \<noteq> wid \<longrightarrow> map_of (workflows self') k = map_of (workflows self) k) \<and>
             map fst (workflows self') = map fst (workflows self) \<and>
             execution_history self' = execution_history self)"
proof -
  have k: "wid \<in> set (map fst (workflows self))"
    by (rule map_of_Some_key [OF assms])
  show ?thesis
    using k by (simp add: define_workflow_def Let_def update_conv' update_keys)
qed

theorem redefinition_replaces_definition_witness:
  "map_of (workflows sample_engine) ''W1'' = Some sample_workflow \<and>
   (let (wfl, self', w') = define_workflow sample_engine ''W1'' ''again'' [step_b] sample_world
    in map_of (workflows self') ''W1'' = Some wfl \<and> steps wfl = [step_b] \<and>
       map fst (workflows self') = map fst (workflows sample_engine))"
proof -
  note t = redefinition_replaces_definition [OF sample_stored, of "''again''" "[step_b]" sample_world]
  show ?thesis using sample_stored t by (simp add: case_prod_beta Let_def)
qed










text \<open>
  Claim C7 as written has the outcome contain the step id. The first step of the
  sample workflow declares the step id \<^verbatim>\<open>s1\<close> and is dispatched to an agent; its outcome
  has no such key and holds that value nowhere.
\<close>

theorem outcome_has_no_step_id_counterexample:
  "steps sample_workflow ! 0 = step_a \<and>
   s_other step_a = [(''step_id'', PStr ''s1'')] \<and>
   s_agent_id step_a = Some ''a1'' \<and> sample_agents ''a1'' = Some analyst \<and>
   step_outcomes (fst (execute_workflow sample_engine ''W1'' sample_agents sample_world)) ! 0 =
     [(''agent_id'', PStr ''a1''), (''task_type'', PStr ''analyze''),
      (''status'', PStr ''completed''), (''result'', PInt 0), (''execution_time'', PFloat 2)] \<and>
   map_of (step_outcomes (fst (execute_workflow sample_engine ''W1'' sample_agents sample_world)) ! 0)
     ''step_id'' = None \<and>
   PStr ''s1'' \<notin> snd ` set
     (step_outcomes (fst (execute_workflow sample_engine ''W1'' sample_agents sample_world)) ! 0)"
proof -
  have a: "steps sample_workflow ! 0 = step_a" by (simp add: sample_workflow_def)
  have b: "s_other step_a = [(''step_id'', PStr ''s1'')]" by (simp add: step_a_def)
  have c: "s_agent_id step_a = Some ''a1''" by (simp add: step_a_def)
  have d: "sample_agents ''a1'' = Some analyst" by (simp add: sample_agents_def)
  have e: "step_outcomes (fst (execute_workflow sample_engine ''W1'' sample_agents sample_world)) ! 0 =
     [(''agent_id'', PStr ''a1''), (''task_type'', PStr ''analyze''),
      (''status'', PStr ''completed''), (''result'', PInt 0), (''execution_time'', PFloat 2)]"
    by (simp add: sample_outcomes)
  have f: "map_of (step_outcomes (fst (execute_workflow sample_engine ''W1'' sample_agents sample_world)) ! 0)
     ''step_id'' = None"
    unfolding e by simp
  have g: "PStr ''s1'' \<notin> snd ` set
     (step_outcomes (fst (execute_workflow sample_engine ''W1'' sample_agents sample_world)) ! 0)"
    unfolding e by simp
  show ?thesis by (intro conjI a b c d e f g)
qed

text \<open>
  Claim C7, as the code has it. The outcome recorded for a step that is dispatched to
  an agent has the status "completed" when the agent's result has \<open>success\<close> true and
  "failed" otherwise, and holds the result's payload and its execution time whatever
  the outcome. It identifies the step by its agent id and its task type: these five
  keys are all it has. Every recorded status is one of completed, failed, skipped.
\<close>

theorem dispatched_outcome_reports_result:
  assumes "map_of (workflows self) wid = Some wfl"
    and "steps wfl = pre @ s # post"
    and "s_agent_id s = Some k"
    and "ags k = Some a"
  shows "(let w1 = snd (run_steps ags pre [] (w\<lparr>now_calls := Suc (now_calls w)\<rparr>));
              r = fst (execute_task a (make_task (uuid4 w1 (uuid4_calls w1)) s) (agent_state w1));
              d = step_outcomes (fst (execute_workflow self wid ags w)) ! length pre
          in map_of d ''status'' = Some (PStr (if success r then ''completed'' else ''failed'')) \<and>
             map_of d ''agent_id'' = Some (PStr k) \<and>
             map_of d ''task_type'' = Some (py_str (s_task_type s)) \<and>
             map_of d ''result'' = Some (result r) \<and>
             map_of d ''execution_time'' = Some (execution_time r) \<and>
             map fst d = [''agent_id'', ''task_type'', ''status'', ''result'', ''execution_time'']) \<and>
         (\<forall>d \<in> set (step_outcomes (fst (execute_workflow self wid ags w))).
            map_of d ''status'' \<in>
              {Some (PStr ''completed''), Some (PStr ''failed''), Some (PStr ''skipped'')})"
proof -
  let ?w0 = "w\<lparr>now_calls := Suc (now_calls w)\<rparr>"
  let ?w1 = "snd (run_steps ags pre [] ?w0)"
  let ?r = "fst (execute_task a (make_task (uuid4 ?w1 (uuid4_calls ?w1)) s) (agent_state ?w1))"
  let ?outs = "step_outcomes (fst (execute_workflow self wid ags w))"
  have f: "find_agent ags s = Some (k, a)"
    using assms(3,4) by (simp add: find_agent_Some)
  have o: "?outs = fst (run_steps ags (pre @ s # post) [] ?w0)"
    using step_outcomes_stored [OF assms(1)] assms(2) by simp
  have one: "fst (run_steps ags [s] [] ?w1) = [step_done s ?r]"
    using run_steps_found [OF f, of ?w1] by (simp del: run_steps.simps)
  have "?outs = fst (run_steps ags pre [] ?w0) @ [step_done s ?r] @
      fst (run_steps ags post [] (snd (run_steps ags [s] [] ?w1)))"
    unfolding o by (simp add: run_steps_split one del: run_steps.simps)
  moreover have "length (fst (run_steps ags pre [] ?w0)) = length pre"
    by (simp add: run_steps_length)
  ultimately have n: "?outs ! length pre = step_done s ?r"
    by (metis append_Cons nth_append_length)
  have a: "map_of (?outs ! length pre) ''status'' =
               Some (PStr (if success ?r then ''completed'' else ''failed'')) \<and>
             map_of (?outs ! length pre) ''agent_id'' = Some (PStr k) \<and>
             map_of (?outs ! length pre) ''task_type'' = Some (py_str (s_task_type s)) \<and>
             map_of (?outs ! length pre) ''result'' = Some (result ?r) \<and>
             map_of (?outs ! length pre) ''execution_time'' = Some (execution_time ?r) \<and>
             map fst (?outs ! length pre) =
               [''agent_id'', ''task_type'', ''status'', ''result'', ''execution_time'']"
    unfolding n using assms(3) by (simp add: step_done_def)
  have b: "\<forall>d \<in> set ?outs. map_of d ''status'' \<in>
              {Some (PStr ''completed''), Some (PStr ''failed''), Some (PStr ''skipped'')}"
    unfolding o by (intro ballI) (rule run_steps_statuses)
  show ?thesis unfolding Let_def by (rule conjI [OF a b])
qed

theorem dispatched_outcome_reports_result_witness:
  "map_of (workflows sample_engine) ''W1'' = Some sample_workflow \<and>
   steps sample_workflow = [] @ step_a # [step_ghost, step_b] \<and>
   s_agent_id step_a = Some ''a1'' \<and> sample_agents ''a1'' = Some analyst \<and>
   map_of (step_outcomes (fst (execute_workflow sample_engine ''W1'' sample_agents sample_world)) ! 0)
     ''status'' = Some (PStr ''completed'') \<and>
   map_of (step_outcomes (fst (execute_workflow sample_engine ''W1'' sample_agents sample_world)) ! 0)
     ''execution_time'' = Some (PFloat 2)"
proof -
  have a: "steps sample_workflow = [] @ step_a # [step_ghost, step_b]"
    by (simp add: sample_workflow_def)
  have b: "s_agent_id step_a = Some ''a1''" by (simp add: step_a_def)
  have c: "sample_agents ''a1'' = Some analyst" by (simp add: sample_agents_def)
  note t = dispatched_outcome_reports_result
    [where pre = "[]" and s = step_a and post = "[step_ghost, step_b]" and w = sample_world
       and ags = sample_agents and k = "''a1''" and a = analyst,
     OF sample_stored a b c]
  have "map_of (step_outcomes (fst (execute_workflow sample_engine ''W1'' sample_agents sample_world)) ! 0)
     ''status'' = Some (PStr ''completed'') \<and>
   map_of (step_outcomes (fst (execute_workflow sample_engine ''W1'' sample_agents sample_world)) ! 0)
     ''execution_time'' = Some (PFloat 2)"
    using t by (simp add: Let_def analyst_def)
  then show ?thesis using sample_stored a b c by blast
qed

text \<open>
  Claim C8. After any sequence of \<^verbatim>\<open>define_workflow\<close> and \<^verbatim>\<open>execute_workflow\<close> calls on a
  new engine, \<^verbatim>\<open>get_stats\<close> reports under \<^verbatim>\<open>workflows_defined\<close> the number of stored
  definitions, under \<^verbatim>\<open>workflows_executed\<close> the number of ledger entries (which is the
  number of runs of ids that were defined when run), and under \<^verbatim>\<open>workflows\<close> the stored
  ids, each once, in the order in which they were first defined.
\<close>

theorem stats_count_store_and_ledger:
  "(let self = fst (run_calls cs (WorkflowEngine_init, w)); stats = get_stats self
    in map_of stats ''workflows_defined'' = Some (PInt (int (card (dom (map_of (workflows self)))))) \<and>
       map_of stats ''workflows_executed'' = Some (PInt (int (length (execution_history self)))) \<and>
       map_of stats ''workflows'' = Some (PList (map PStr (insertion_order (defined_ids cs)))) \<and>
       set (insertion_order (defined_ids cs)) = dom (map_of (workflows self)) \<and>
       length (execution_history self) = count_executions {} cs \<and>
       map fst stats = [''workflows_defined'', ''workflows_executed'', ''workflows''])"
proof -
  let ?self = "fst (run_calls cs (WorkflowEngine_init, w))"
  let ?io = "insertion_order (defined_ids cs)"
  have k: "map fst (workflows ?self) = ?io"
    using run_calls_keys [of cs WorkflowEngine_init w] by (simp add: WorkflowEngine_init_def)
  have "dom (map_of (workflows ?self)) = set (map fst (workflows ?self))"
    by (simp add: dom_map_of_conv_image_fst)
  then have d: "set ?io = dom (map_of (workflows ?self))"
    by (simp only: k)
  have "card (set ?io) = length ?io"
    by (rule distinct_card) (rule distinct_insertion_order)
  moreover have "length ?io = length (workflows ?self)"
    using arg_cong [OF k, of length] by simp
  ultimately have c: "card (dom (map_of (workflows ?self))) = length (workflows ?self)"
    by (simp only: d)
  have h: "length (execution_history ?self) = count_executions {} cs"
    using run_calls_history [of cs WorkflowEngine_init w] by (simp add: WorkflowEngine_init_def)
  have "map (\<lambda>p. PStr (fst p)) (workflows ?self) = map PStr (map fst (workflows ?self))"
    by (simp add: comp_def)
  then have m: "map (\<lambda>p. PStr (fst p)) (workflows ?self) = map PStr ?io"
    by (simp only: k)
  have s1: "map_of (get_stats ?self) ''workflows_defined'' =
      Some (PInt (int (card (dom (map_of (workflows ?self))))))"
    by (simp add: get_stats_def c)
  have s2: "map_of (get_stats ?self) ''workflows_executed'' =
      Some (PInt (int (length (execution_history ?self))))"
    by (simp add: get_stats_def)
  have s3: "map_of (get_stats ?self) ''workflows'' = Some (PList (map PStr ?io))"
    by (simp add: get_stats_def m)
  have s4: "map fst (get_stats ?self) = [''workflows_defined'', ''workflows_executed'', ''workflows'']"
    by (simp add: get_stats_def)
  show ?thesis
    unfolding Let_def by (intro conjI s1 s2 s3 d h s4)
qed



text \<open>
  Claim C10. \<^verbatim>\<open>register_agent\<close> returns \<^verbatim>\<open>True\<close> for every agent and leaves the workflow
  engine alone (the number of agents is \<^verbatim>\<open>len(self.agents)\<close>, the length of the map). Afterwards the agent map holds the registered agent under its id and
  every other id holds what it held. When the id was registered already, the later
  registration takes the place of the earlier one: the number of agents and the
  order of their ids are unchanged.
\<close>

theorem register_agent_last_wins:
  "fst (register_agent self agent) = True \<and>
   workflow_engine (snd (register_agent self agent)) = workflow_engine self \<and>
   map_of (agents (snd (register_agent self agent))) (agent_id agent) = Some agent \<and>
   (\<forall>k. k \<noteq> agent_id agent \<longrightarrow>
      map_of (agents (snd (register_agent self agent))) k = map_of (agents self) k) \<and>
   (agent_id agent \<in> fst ` set (agents self) \<longrightarrow>
      length (agents (snd (register_agent self agent))) = length (agents self) \<and>
      map fst (agents (snd (register_agent self agent))) = map fst (agents self))"
proof -
  have "agent_id agent \<in> fst ` set (agents self) \<longrightarrow>
      map fst (AList.update (agent_id agent) agent (agents self)) = map fst (agents self)"
    by (simp add: update_keys)
  moreover have "agent_id agent \<in> fst ` set (agents self) \<longrightarrow>
      length (AList.update (agent_id agent) agent (agents self)) = length (agents self)"
    using calculation length_map by metis
  ultimately show ?thesis
    by (simp add: register_agent_def update_conv')
qed

theorem register_agent_last_wins_witness:
  "agent_id analyst_again \<in> fst ` set (agents sample_orchestrator) \<and>
   map_of (agents sample_orchestrator) ''a1'' = Some analyst \<and>
   fst (register_agent sample_orchestrator analyst_again) = True \<and>
   map_of (agents (snd (register_agent sample_orchestrator analyst_again))) ''a1'' =
     Some analyst_again \<and>
   map_of (agents (snd (register_agent sample_orchestrator analyst_again))) ''a2'' =
     Some reporter \<and>
   length (agents (snd (register_agent sample_orchestrator analyst_again))) = 2"
proof -
  have i: "agent_id analyst_again = ''a1''"
    by (simp add: analyst_again_def analyst_def)
  have a: "agent_id analyst_again \<in> fst ` set (agents sample_orchestrator)"
    by (simp add: i sample_orchestrator_agents)
  have b: "map_of (agents sample_orchestrator) ''a1'' = Some analyst"
    by (simp add: sample_orchestrator_agents)
  have c: "map_of (agents sample_orchestrator) ''a2'' = Some reporter"
    by (simp add: sample_orchestrator_agents)
  have d: "length (agents sample_orchestrator) = 2"
    by (simp add: sample_orchestrator_agents)
  note t = register_agent_last_wins [of sample_orchestrator analyst_again]
  show ?thesis using a b c d t by (simp add: i)
qed

end
